theory Spec2Isabelle
  imports Main "HOL-Library.AList"
begin

section \<open>Data model (event.entity.ts, user.entity.ts, audit-log.entity.ts)\<close>

text \<open>
  Identifiers are uuid strings. Instants (\<open>Date\<close>) are modelled by their epoch
  milliseconds, which is what \<open>getTime()\<close> and the relational operators on
  \<open>Date\<close> compare. The informational columns \<open>createdAt\<close> and
  \<open>updatedAt\<close> are never read by the merge engine and are left out.
\<close>

record user =
  userId :: string
  name :: string
  email :: string

datatype EventStatus = TODO | IN_PROGRESS | COMPLETED | CANCELED

record event =
  eventId :: string
  title :: string
  description :: "string option"
  status :: EventStatus
  startTime :: int
  endTime :: int
  creator :: "user option"
  invitees :: "user list"
  mergedFrom :: "string list option"

record auditLog =
  auditId :: string
  auditUserId :: string
  newEventId :: string
  mergedEventIds :: "string list"
  auditNotes :: "string option"

section \<open>Strings and the regular expressions of areTitlesCompatible\<close>

text \<open>
  A string is a list of code units below 256 (Latin-1). \<open>toLowerCase\<close> maps
  \<open>A-Z\<close> to \<open>a-z\<close> and the capital letters U+00C0 to U+00DE (the
  multiplication sign U+00D7 apart) to the letters 32 above them. White space, for
  \<open>trim\<close> and for \<open>\s\<close> alike, is tab, line feed, vertical tab, form
  feed, carriage return, space and the no-break space U+00A0. A word character
  (\<open>\w\<close>, used by \<open>\b\<close>) is an ASCII letter, a digit or the underscore.
\<close>

definition lowerChar :: "char \<Rightarrow> char" where
  "lowerChar c =
     (let n = (of_char c :: nat) in
        if (65 \<le> n \<and> n \<le> 90) \<or> (192 \<le> n \<and> n \<le> 222 \<and> n \<noteq> 215) then char_of (n + 32) else c)"

definition toLowerCase :: "string \<Rightarrow> string" where
  "toLowerCase s = map lowerChar s"

definition isSpace :: "char \<Rightarrow> bool" where
  "isSpace c = (let n = (of_char c :: nat) in (9 \<le> n \<and> n \<le> 13) \<or> n = 32 \<or> n = 160)"

definition isWordChar :: "char \<Rightarrow> bool" where
  "isWordChar c =
     (let n = (of_char c :: nat) in
        (48 \<le> n \<and> n \<le> 57) \<or> (65 \<le> n \<and> n \<le> 90) \<or> (97 \<le> n \<and> n \<le> 122) \<or> n = 95)"

definition trim :: "string \<Rightarrow> string" where
  "trim s = rev (dropWhile isSpace (rev (dropWhile isSpace s)))"

text \<open>
  The fragment of the regular-expression language the five rules use: literals,
  character classes such as \<open>[- ]\<close>, alternation, concatenation, the word boundary
  \<open>\b\<close> and \<open>\s+\<close>.
\<close>

datatype regex =
    Lit string
  | Cls "char list"
  | Alt regex regex
  | Seq regex regex
  | WordB
  | Spaces

definition wordBoundary :: "string \<Rightarrow> nat \<Rightarrow> bool" where
  "wordBoundary s i =
     ((0 < i \<and> i \<le> length s \<and> isWordChar (s ! (i - 1))) \<noteq> (i < length s \<and> isWordChar (s ! i)))"

text \<open>
  \<open>rxEnds r s i\<close> lists every position at which a match of \<open>r\<close> that starts
  at position \<open>i\<close> of \<open>s\<close> can end. A backtracking matcher finds a match
  exactly when one exists, so \<open>RegExp.prototype.test\<close> (no \<open>g\<close> flag, hence no state)
  is true iff some start position has an end position.
\<close>

primrec rxEnds :: "regex \<Rightarrow> string \<Rightarrow> nat \<Rightarrow> nat list" where
  "rxEnds (Lit w) s i = (if take (length w) (drop i s) = w then [i + length w] else [])"
| "rxEnds (Cls cs) s i = (if i < length s \<and> s ! i \<in> set cs then [Suc i] else [])"
| "rxEnds (Alt a b) s i = rxEnds a s i @ rxEnds b s i"
| "rxEnds (Seq a b) s i = concat (map (rxEnds b s) (rxEnds a s i))"
| "rxEnds WordB s i = (if wordBoundary s i then [i] else [])"
| "rxEnds Spaces s i = map (\<lambda>k. i + k) [1 ..< Suc (length (takeWhile isSpace (drop i s)))]"

definition test :: "regex \<Rightarrow> string \<Rightarrow> bool" where
  "test r s = list_ex (\<lambda>i. rxEnds r s i \<noteq> []) [0 ..< Suc (length s)]"

fun alts :: "regex list \<Rightarrow> regex" where
  "alts [] = Cls []"
| "alts [r] = r"
| "alts (r # rs) = Alt r (alts rs)"

definition words :: "string list \<Rightarrow> regex" where
  "words ws = alts (map Lit ws)"

definition bounded :: "regex \<Rightarrow> regex" where
  "bounded r = Seq WordB (Seq r WordB)"

definition dashOrSpace :: regex where
  "dashOrSpace = Cls [CHR ''-'', CHR '' '']"

definition oneOnOne :: regex where
  "oneOnOne = Seq (Lit ''one'') (Seq dashOrSpace (Seq (Lit ''on'') (Seq dashOrSpace (Lit ''one''))))"

definition oneToOne :: regex where
  "oneToOne = Seq (Lit ''one'') (Seq dashOrSpace (Seq (Lit ''to'') (Seq dashOrSpace (Lit ''one''))))"

definition allHands :: regex where
  "allHands = Seq (Lit ''all'') (Seq dashOrSpace (Lit ''hands''))"

text \<open>The table \<open>incompatiblePatterns\<close>, rule by rule, in the source's order.\<close>

definition incompatiblePatterns :: "(regex \<times> regex list) list" where
  "incompatiblePatterns =
    [ (bounded (alts [Lit ''1:1'', oneOnOne, oneToOne, Lit ''individual'']),
       [bounded (words [''demo'', ''demonstration'', ''presentation'', ''standup'', ''sync'',
                        ''review'', ''team'', ''group''])]),
      (Seq WordB (Seq (words [''manager'', ''executive'', ''director'', ''vp'', ''ceo'', ''cto'', ''cfo''])
         (Seq Spaces (Seq (alts [Lit ''call'', Lit ''meeting'', Lit ''1:1'', oneOnOne]) WordB))),
       [bounded (words [''demo'', ''demonstration'', ''presentation'', ''client'', ''customer''])]),
      (bounded (words [''personal'', ''private'', ''confidential'']),
       [bounded (alts [Lit ''team'', Lit ''group'', Lit ''public'', allHands, Lit ''company''])]),
      (bounded (words [''client'', ''customer'', ''external'', ''vendor'', ''partner'']),
       [bounded (alts [Lit ''internal'', Lit ''team'', Lit ''standup'', Lit ''sync'', Lit ''1:1'',
                       oneOnOne])]),
      (bounded (words [''demo'', ''demonstration'', ''presentation'']),
       [bounded (alts [Lit ''1:1'', oneOnOne, Lit ''manager'', Lit ''executive'', Lit ''personal'',
                       Lit ''private''])]) ]"

text \<open>
  The loop over the rules. A rule is looked at when either title matches its
  \<open>pattern\<close>; the title then tested against \<open>incompatibleWith\<close> is
  \<open>matches1 ? t2 : t1\<close>.
\<close>

fun checkRules :: "(regex \<times> regex list) list \<Rightarrow> string \<Rightarrow> string \<Rightarrow> bool" where
  "checkRules [] t1 t2 = True"
| "checkRules ((pattern, incompatibleWith) # rules) t1 t2 =
     (let matches1 = test pattern t1; matches2 = test pattern t2 in
        if matches1 \<or> matches2 then
          (let otherTitle = (if matches1 then t2 else t1) in
             if list_ex (\<lambda>incompatiblePattern. test incompatiblePattern otherTitle) incompatibleWith
             then False
             else checkRules rules t1 t2)
        else checkRules rules t1 t2)"

definition areTitlesCompatible :: "string \<Rightarrow> string \<Rightarrow> bool" where
  "areTitlesCompatible title1 title2 =
     checkRules incompatiblePatterns (trim (toLowerCase title1)) (trim (toLowerCase title2))"

section \<open>The overlap predicate (isOverlapping)\<close>

definition timeOverlaps :: "event \<Rightarrow> event \<Rightarrow> bool" where
  "timeOverlaps event1 event2 =
     (startTime event1 \<le> endTime event2 \<and> endTime event1 \<ge> startTime event2)"

text \<open>
  The participant set of an event: the creator's id when there is a creator, the
  invitees' ids, and then the invoking user's id deleted.
\<close>

definition participants :: "event \<Rightarrow> string \<Rightarrow> string set" where
  "participants e uid =
     ((case creator e of None \<Rightarrow> {} | Some c \<Rightarrow> {userId c}) \<union> set (map userId (invitees e))) - {uid}"

definition hasCommonParticipant :: "event \<Rightarrow> event \<Rightarrow> string \<Rightarrow> bool" where
  "hasCommonParticipant event1 event2 uid =
     (\<exists>i \<in> participants event1 uid. i \<in> participants event2 uid)"

definition isOverlapping :: "event \<Rightarrow> event \<Rightarrow> string \<Rightarrow> bool" where
  "isOverlapping event1 event2 uid =
     (if \<not> timeOverlaps event1 event2 then False
      else if \<not> hasCommonParticipant event1 event2 uid then False
      else if \<not> areTitlesCompatible (title event1) (title event2) then False
      else True)"

section \<open>The grouper (groupOverlappingEvents)\<close>

text \<open>
  One pass of the inner \<open>for (const otherEvent of events)\<close> loop. The state is
  the group \<open>grp\<close> built so far, the set \<open>processed\<close> of event ids and the flag
  \<open>foundOverlap\<close>. An event added to the group during the pass is already a
  member when the events after it are tested.
\<close>

fun scanEvents :: "event list \<Rightarrow> string \<Rightarrow> event list \<times> string set \<times> bool
    \<Rightarrow> event list \<times> string set \<times> bool" where
  "scanEvents [] uid st = st"
| "scanEvents (otherEvent # rest) uid (grp, processed, foundOverlap) =
     (if eventId otherEvent \<in> processed then scanEvents rest uid (grp, processed, foundOverlap)
      else if list_ex (\<lambda>e. isOverlapping e otherEvent uid) grp
      then scanEvents rest uid (grp @ [otherEvent], insert (eventId otherEvent) processed, True)
      else scanEvents rest uid (grp, processed, foundOverlap))"

text \<open>
  The loop \<open>while (foundOverlap)\<close>: the flag is true on entry, so the body runs
  at least once; each round resets the flag and scans every event. The loop has no
  bound in the source, so the model returns \<open>None\<close> should it never stop.
\<close>

partial_function (option) expandGroup ::
    "event list \<Rightarrow> string \<Rightarrow> event list \<Rightarrow> string set \<Rightarrow> (event list \<times> string set) option" where
  "expandGroup events uid grp processed =
     (case scanEvents events uid (grp, processed, False) of
        (grp', processed', foundOverlap) \<Rightarrow>
          if foundOverlap then expandGroup events uid grp' processed'
          else Some (grp', processed'))"

declare expandGroup.simps [code]

text \<open>
  The outer \<open>for (const event of events)\<close> loop: \<open>todo\<close> is the part of
  \<open>events\<close> still to visit.
\<close>

fun groupLoop :: "event list \<Rightarrow> string \<Rightarrow> event list \<Rightarrow> event list list \<Rightarrow> string set
    \<Rightarrow> event list list option" where
  "groupLoop events uid [] groups processed = Some groups"
| "groupLoop events uid (e # todo) groups processed =
     (if eventId e \<in> processed then groupLoop events uid todo groups processed
      else
        (case expandGroup events uid [e] (insert (eventId e) processed) of
           None \<Rightarrow> None
         | Some (grp, processed') \<Rightarrow>
             groupLoop events uid todo
               (if length grp > 1 then groups @ [grp] else groups) processed'))"

definition groupOverlappingEvents :: "event list \<Rightarrow> string \<Rightarrow> event list list option" where
  "groupOverlappingEvents events uid = groupLoop events uid events [] {}"

section \<open>The synthesizer (mergeEvents, lines 639-695)\<close>

datatype error =
    NotFoundException string
  | BadRequestException string
  | TypeError
  | QueryFailedError

definition statusPriority :: "EventStatus \<Rightarrow> nat" where
  "statusPriority st = (case st of COMPLETED \<Rightarrow> 4 | IN_PROGRESS \<Rightarrow> 3 | TODO \<Rightarrow> 2 | CANCELED \<Rightarrow> 1)"

fun join :: "string \<Rightarrow> string list \<Rightarrow> string" where
  "join sep [] = []"
| "join sep [x] = x"
| "join sep (x # xs) = x @ sep @ join sep xs"

text \<open>
  \<open>allInvitees\<close> is a \<open>Map\<close> keyed by user id: setting a key that is
  present replaces its value and keeps its position, a new key goes to the end.
\<close>

definition addParticipants :: "(string \<times> user) list \<Rightarrow> event \<Rightarrow> (string \<times> user) list" where
  "addParticipants m e =
     foldl (\<lambda>acc invitee. AList.update (userId invitee) invitee acc)
       (case creator e of None \<Rightarrow> m | Some c \<Rightarrow> AList.update (userId c) c m)
       (invitees e)"

text \<open>
  The part of \<open>mergeEvents\<close> before the repository calls.
  \<open>Array.prototype.sort\<close> is stable, and so is \<open>sort_key\<close>: events
  with equal start times keep their order. The merged record has
  no id yet (the empty string stands for the missing field). Reading
  \<open>sortedEvents[0]\<close> of an empty array, or \<open>creator.id\<close> of a missing
  creator, throws a \<open>TypeError\<close>.
\<close>

definition mergedEventData :: "event list \<Rightarrow> error + event" where
  "mergedEventData events =
     (let sortedEvents = sort_key startTime events in
      case sortedEvents of
        [] \<Rightarrow> Inl TypeError
      | first # rest \<Rightarrow>
         (let titles = map title sortedEvents;
              mergedTitle = join '' | '' titles;
              mergedStartTime = startTime first;
              mergedEndTime =
                foldl (\<lambda>latest event. if endTime event > latest then endTime event else latest)
                  (endTime first) sortedEvents;
              mergedStatus =
                status (foldl (\<lambda>highest event.
                           if statusPriority (status event) > statusPriority (status highest)
                           then event else highest) first rest);
              descriptions =
                concat (map (\<lambda>e. case description e of
                                     None \<Rightarrow> []
                                   | Some d \<Rightarrow> if d \<noteq> [] \<and> trim d \<noteq> [] then [d] else [])
                            sortedEvents);
              mergedDescription =
                (if length descriptions > 0 then Some (join [CHR 0x0A, CHR 0x0A] descriptions)
                 else None);
              allInvitees = foldl addParticipants [] sortedEvents
          in case creator first of
               None \<Rightarrow> Inl TypeError
             | Some c \<Rightarrow>
                 Inr \<lparr> eventId = [],
                       title = mergedTitle,
                       description = mergedDescription,
                       status = mergedStatus,
                       startTime = mergedStartTime,
                       endTime = mergedEndTime,
                       creator = Some c,
                       invitees = map snd (AList.delete (userId c) allInvitees),
                       mergedFrom = Some (map eventId sortedEvents) \<rparr>))"

section \<open>Collaborators: repositories, summarizer, queue\<close>

record AiSummaryJobData =
  jobEventData :: "event list"
  jobUserId :: string
  jobMergedEventId :: string
  jobMergedEventIds :: "string list"
  jobAuditLogId :: string

text \<open>The database tables and the job queue.\<close>

record store =
  userTable :: "user list"
  eventTable :: "event list"
  auditTable :: "auditLog list"
  jobQueue :: "AiSummaryJobData list"

text \<open>
  What the service cannot decide itself: the optional collaborators
  (\<open>aiService\<close> maps the events to the summary, \<open>None\<close> when the call
  rejects; \<open>aiSummaryQueue\<close> is \<open>Some True\<close> when \<open>add\<close>
  resolves and \<open>Some False\<close> when it rejects), the uuids the database
  generates, and which repository writes the database rejects. Reads are taken to
  succeed. A rejected write changes nothing; \<open>remove\<close> of several rows is one
  statement of the repository and deletes all or none.
\<close>

record env =
  aiService :: "(event list \<Rightarrow> string option) option"
  aiSummaryQueue :: "bool option"
  generatedEventId :: string
  generatedAuditId :: string
  saveEventFails :: bool
  removeEventsFails :: bool
  saveAuditFails :: bool
  updateAuditFails :: bool

text \<open>\<open>mergeEvents\<close>: synthesize, then \<open>save\<close>, then \<open>remove(sortedEvents)\<close>.\<close>

definition mergeEvents :: "env \<Rightarrow> event list \<Rightarrow> string \<Rightarrow> store \<Rightarrow> (error + event) \<times> store" where
  "mergeEvents env events uid s =
     (case mergedEventData events of
        Inl err \<Rightarrow> (Inl err, s)
      | Inr eventData \<Rightarrow>
          if saveEventFails env then (Inl QueryFailedError, s)
          else
            (let savedEvent = eventData\<lparr>eventId := generatedEventId env\<rparr>;
                 s1 = s\<lparr>eventTable := eventTable s @ [savedEvent]\<rparr>;
                 sortedEvents = sort_key startTime events
             in if removeEventsFails env then (Inl QueryFailedError, s1)
                else (Inr savedEvent,
                      s1\<lparr>eventTable :=
                            filter (\<lambda>e. eventId e \<notin> set (map eventId sortedEvents)) (eventTable s1)\<rparr>)))"

section \<open>The orchestrator (mergeAll)\<close>

fun showNat :: "nat \<Rightarrow> string" where
  "showNat n =
     (if n < 10 then [char_of (48 + n)] else showNat (n div 10) @ [char_of (48 + n mod 10)])"

text \<open>The template string \<open>`Merged ${largestGroup.length} overlapping events`\<close>.\<close>

definition fallbackNote :: "event list \<Rightarrow> string" where
  "fallbackNote largest = ''Merged '' @ showNat (length largest) @ '' overlapping events''"

text \<open>
  The query of \<open>mergeAll\<close> left-joins each event with its creator and with its
  invitees, one row per invitee, and keeps the rows where
  \<open>creator.id = :userId OR invitees.id = :userId\<close>. An event is loaded when a
  row of it is kept, with the invitees of its kept rows: all of them when the user
  created the event, and otherwise only the user, provided the user is invited.
  Events come back in table order.
\<close>

definition createdBy :: "string \<Rightarrow> event \<Rightarrow> bool" where
  "createdBy uid e = (case creator e of None \<Rightarrow> False | Some c \<Rightarrow> userId c = uid)"

definition loadEvent :: "string \<Rightarrow> event \<Rightarrow> event option" where
  "loadEvent uid e =
     (if createdBy uid e then Some e
      else if list_ex (\<lambda>invitee. userId invitee = uid) (invitees e)
      then Some (e\<lparr>invitees := filter (\<lambda>invitee. userId invitee = uid) (invitees e)\<rparr>)
      else None)"

definition loadEvents :: "string \<Rightarrow> store \<Rightarrow> event list" where
  "loadEvents uid s = List.map_filter (loadEvent uid) (eventTable s)"

definition mergeableEvents :: "string \<Rightarrow> store \<Rightarrow> event list" where
  "mergeableEvents uid s = filter (\<lambda>e. status e \<noteq> CANCELED) (loadEvents uid s)"

text \<open>
  \<open>groups.reduce((prev, current) => current.length > prev.length ? current : prev)\<close>:
  without an initial value the first group starts the reduction, and an empty array
  throws a \<open>TypeError\<close>.
\<close>

definition largestGroup :: "event list list \<Rightarrow> error + event list" where
  "largestGroup groups =
     (case groups of
        [] \<Rightarrow> Inl TypeError
      | g # gs \<Rightarrow> Inr (foldl (\<lambda>prev current. if length current > length prev then current else prev) g gs))"

text \<open>\<open>auditLogRepository.save\<close> of the new row, and of the row with its notes set.\<close>

definition insertAudit :: "env \<Rightarrow> auditLog \<Rightarrow> store \<Rightarrow> (error + auditLog) \<times> store" where
  "insertAudit env a s =
     (if saveAuditFails env then (Inl QueryFailedError, s)
      else (let saved = a\<lparr>auditId := generatedAuditId env\<rparr>
            in (Inr saved, s\<lparr>auditTable := auditTable s @ [saved]\<rparr>)))"

definition updateAudit :: "env \<Rightarrow> auditLog \<Rightarrow> store \<Rightarrow> (error + auditLog) \<times> store" where
  "updateAudit env a s =
     (if updateAuditFails env then (Inl QueryFailedError, s)
      else (Inr a, s\<lparr>auditTable := map (\<lambda>row. if auditId row = auditId a then a else row) (auditTable s)\<rparr>))"

text \<open>
  \<open>eventRepository.remove\<close> deletes the primary key of the entity objects it
  removed, and these are the objects of \<open>largestGroup\<close>
  (\<open>[...events]\<close> copies the array, not the objects). As for the unsaved
  merged record, the empty string stands for the missing id; no stored event has
  it, ids being uuids.
\<close>

definition removedEntity :: "event \<Rightarrow> event" where
  "removedEntity e = e\<lparr>eventId := []\<rparr>"

text \<open>
  Lines 446-491. With both a queue and a summarizer the job is handed to the queue,
  with the ids and the event data that were copied before the merge; when
  \<open>add\<close> rejects, the \<open>catch\<close> writes the fallback note. With a
  summarizer only, it is called at once on \<open>largestGroup\<close>, whose events have
  been removed by then, and any failure inside the \<open>try\<close> (the summarizer's,
  or that of the \<open>save\<close> after it) leads to the \<open>catch\<close>, which writes
  the fallback note. With no summarizer the fallback note is written.
\<close>

definition summarizing :: "env \<Rightarrow> string \<Rightarrow> event list \<Rightarrow> event \<Rightarrow> auditLog \<Rightarrow> store
    \<Rightarrow> (error + auditLog) \<times> store" where
  "summarizing env uid largest mergedEvent savedAuditLog s =
     (case (aiSummaryQueue env, aiService env) of
        (Some accepts, Some summarize) \<Rightarrow>
          if accepts then
            (Inr savedAuditLog,
             s\<lparr>jobQueue := jobQueue s @
                  [\<lparr> jobEventData = largest, jobUserId = uid,
                      jobMergedEventId = eventId mergedEvent,
                      jobMergedEventIds = map eventId largest,
                      jobAuditLogId = auditId savedAuditLog \<rparr>]\<rparr>)
          else updateAudit env (savedAuditLog\<lparr>auditNotes := Some (fallbackNote largest)\<rparr>) s
      | (None, Some summarize) \<Rightarrow>
          (case summarize (map removedEntity largest) of
             Some aiSummary \<Rightarrow>
               (case updateAudit env (savedAuditLog\<lparr>auditNotes := Some aiSummary\<rparr>) s of
                  (Inr a, s') \<Rightarrow> (Inr a, s')
                | (Inl err, s') \<Rightarrow>
                    updateAudit env (savedAuditLog\<lparr>auditNotes := Some (fallbackNote largest)\<rparr>) s')
           | None \<Rightarrow> updateAudit env (savedAuditLog\<lparr>auditNotes := Some (fallbackNote largest)\<rparr>) s)
      | (_, None) \<Rightarrow> updateAudit env (savedAuditLog\<lparr>auditNotes := Some (fallbackNote largest)\<rparr>) s)"

text \<open>
  \<open>mergeAll\<close> returns the merged event together with the audit row whose id,
  notes and merged ids it attaches to the response, and the tables as they are when
  it returns or throws. The outer \<open>option\<close> is \<open>None\<close> only if the
  grouper does not return.
\<close>

definition mergeAll :: "env \<Rightarrow> string \<Rightarrow> store \<Rightarrow> ((error + event \<times> auditLog) \<times> store) option" where
  "mergeAll env uid s =
     (if \<not> list_ex (\<lambda>u. userId u = uid) (userTable s)
      then Some (Inl (NotFoundException (''User with ID '' @ uid @ '' not found'')), s)
      else if length (loadEvents uid s) < 2
      then Some (Inl (BadRequestException ''Need at least 2 events to perform merge operation''), s)
      else if length (mergeableEvents uid s) < 2
      then Some (Inl (BadRequestException
                        ''Need at least 2 non-canceled events to perform merge operation''), s)
      else
        (case groupOverlappingEvents (mergeableEvents uid s) uid of
           None \<Rightarrow> None
         | Some groups \<Rightarrow>
            if length groups = 0
            then Some (Inl (BadRequestException ''No overlapping events found to merge''), s)
            else
              (case largestGroup groups of
                 Inl err \<Rightarrow> Some (Inl err, s)
               | Inr largest \<Rightarrow>
                  (let eventIds = map eventId largest in
                   case mergeEvents env largest uid s of
                     (Inl err, s1) \<Rightarrow> Some (Inl err, s1)
                   | (Inr mergedEvent, s1) \<Rightarrow>
                      (case insertAudit env
                              \<lparr> auditId = [], auditUserId = uid, newEventId = eventId mergedEvent,
                                mergedEventIds = eventIds, auditNotes = None \<rparr> s1 of
                         (Inl err, s2) \<Rightarrow> Some (Inl err, s2)
                       | (Inr savedAuditLog, s2) \<Rightarrow>
                          (case summarizing env uid largest mergedEvent savedAuditLog s2 of
                             (Inl err, s3) \<Rightarrow> Some (Inl err, s3)
                           | (Inr finalAuditLog, s3) \<Rightarrow>
                               Some (Inr (mergedEvent, finalAuditLog), s3)))))))"

section \<open>Example data\<close>

text \<open>
  The scenario of the integration tests: user \<open>u1\<close> creates every event; two
  events are shared with \<open>u2\<close> and three with \<open>u3\<close>. Times are minutes
  of one day.
\<close>

definition alice :: user where
  "alice = \<lparr>userId = ''u1'', name = ''Alice'', email = ''alice@example.com''\<rparr>"

definition jane :: user where
  "jane = \<lparr>userId = ''u2'', name = ''Jane'', email = ''jane@example.com''\<rparr>"

definition bob :: user where
  "bob = \<lparr>userId = ''u3'', name = ''Bob'', email = ''bob@example.com''\<rparr>"

definition mkEvent :: "string \<Rightarrow> string \<Rightarrow> int \<Rightarrow> int \<Rightarrow> user \<Rightarrow> event" where
  "mkEvent i t st en invitee =
     \<lparr> eventId = i, title = t, description = None, status = TODO, startTime = st, endTime = en,
       creator = Some alice, invitees = [invitee], mergedFrom = None \<rparr>"

definition planning :: event where
  "planning = mkEvent ''e1'' ''Planning'' 600 660 jane"

definition teamMeeting :: event where
  "teamMeeting = mkEvent ''e2'' ''Team Meeting'' 630 690 jane"

definition quietEnv :: env where
  "quietEnv =
     \<lparr> aiService = None, aiSummaryQueue = None,
       generatedEventId = ''m1'', generatedAuditId = ''a1'',
       saveEventFails = False, removeEventsFails = False,
       saveAuditFails = False, updateAuditFails = False \<rparr>"

definition twoEventStore :: store where
  "twoEventStore =
     \<lparr> userTable = [alice, jane, bob], eventTable = [planning, teamMeeting],
       auditTable = [], jobQueue = [] \<rparr>"

definition planningTeamMerged :: event where
  "planningTeamMerged =
     \<lparr> eventId = ''m1'', title = ''Planning | Team Meeting'', description = None, status = TODO,
       startTime = 600, endTime = 690, creator = Some alice, invitees = [jane],
       mergedFrom = Some [''e1'', ''e2''] \<rparr>"

definition followUp :: event where
  "followUp = mkEvent ''e3'' ''Follow-up'' 660 720 jane"

definition designTalk :: event where
  "designTalk = mkEvent ''e4'' ''Design'' 600 660 jane"

definition budgetTalk :: event where
  "budgetTalk = mkEvent ''e5'' ''Budget'' 630 690 bob"

definition disjointStore :: store where
  "disjointStore =
     \<lparr> userTable = [alice, jane, bob], eventTable = [designTalk, budgetTalk],
       auditTable = [], jobQueue = [] \<rparr>"

definition syncMeeting :: event where
  "syncMeeting = mkEvent ''e6'' ''1:1 Sync'' 620 680 jane"

definition catchUp :: event where
  "catchUp = mkEvent ''e7'' ''1:1'' 670 720 jane"

definition catchUpFirstStore :: store where
  "catchUpFirstStore =
     \<lparr> userTable = [alice, jane, bob], eventTable = [catchUp, syncMeeting],
       auditTable = [], jobQueue = [] \<rparr>"

definition group1Event1 :: event where
  "group1Event1 = mkEvent ''g11'' ''Group1 Event 1'' 600 660 jane"

definition group1Event2 :: event where
  "group1Event2 = mkEvent ''g12'' ''Group1 Event 2'' 630 690 jane"

definition group2Event1 :: event where
  "group2Event1 = mkEvent ''g21'' ''Group2 Event 1'' 840 900 bob"

definition group2Event2 :: event where
  "group2Event2 = mkEvent ''g22'' ''Group2 Event 2'' 870 930 bob"

definition group2Event3 :: event where
  "group2Event3 = mkEvent ''g23'' ''Group2 Event 3'' 885 960 bob"

definition fiveEventStore :: store where
  "fiveEventStore =
     \<lparr> userTable = [alice, jane, bob],
       eventTable = [group1Event1, group1Event2, group2Event1, group2Event2, group2Event3],
       auditTable = [], jobQueue = [] \<rparr>"

definition group2Merged :: event where
  "group2Merged =
     \<lparr> eventId = ''m1'', title = ''Group2 Event 1 | Group2 Event 2 | Group2 Event 3'',
       description = None, status = TODO, startTime = 840, endTime = 960,
       creator = Some alice, invitees = [bob], mergedFrom = Some [''g21'', ''g22'', ''g23''] \<rparr>"

definition group2Audit :: auditLog where
  "group2Audit =
     \<lparr> auditId = ''a1'', auditUserId = ''u1'', newEventId = ''m1'',
       mergedEventIds = [''g21'', ''g22'', ''g23''],
       auditNotes = Some ''Merged 3 overlapping events'' \<rparr>"

definition fiveEventStoreMerged :: store where
  "fiveEventStoreMerged =
     \<lparr> userTable = [alice, jane, bob],
       eventTable = [group1Event1, group1Event2, group2Merged],
       auditTable = [group2Audit], jobQueue = [] \<rparr>"

text \<open>
  The summarizer of the repository in mock mode, on a cache miss
  (\<open>AiService.generateMockSummary\<close>).
\<close>

definition generateMockSummary :: "event list \<Rightarrow> string option" where
  "generateMockSummary events =
     Some (''Merged '' @ showNat (length events) @ '' overlapping events: ''
           @ join '' + '' (map title events) @ ''.'')"

definition summarizerOnlyEnv :: env where
  "summarizerOnlyEnv = quietEnv\<lparr>aiService := Some generateMockSummary\<rparr>"

definition rejectingQueueEnv :: env where
  "rejectingQueueEnv =
     quietEnv\<lparr>aiService := Some generateMockSummary, aiSummaryQueue := Some False\<rparr>"

definition fallbackAudit :: auditLog where
  "fallbackAudit =
     \<lparr> auditId = ''a1'', auditUserId = ''u1'', newEventId = ''m1'',
       mergedEventIds = [''e1'', ''e2''],
       auditNotes = Some ''Merged 2 overlapping events'' \<rparr>"

definition fallbackStore :: store where
  "fallbackStore =
     \<lparr> userTable = [alice, jane, bob], eventTable = [planningTeamMerged],
       auditTable = [fallbackAudit], jobQueue = [] \<rparr>"

definition summaryAudit :: auditLog where
  "summaryAudit =
     fallbackAudit\<lparr>auditNotes := Some ''Merged 2 overlapping events: Planning + Team Meeting.''\<rparr>"

definition summaryStore :: store where
  "summaryStore = fallbackStore\<lparr>auditTable := [summaryAudit]\<rparr>"

text \<open>
  Two overlapping reviews by different creators, both with Jane and Bob invited;
  Jane is the one who asks for the merge.
\<close>

definition carol :: user where
  "carol = \<lparr>userId = ''u4'', name = ''Carol'', email = ''carol@example.com''\<rparr>"

definition aliceReview :: event where
  "aliceReview = (mkEvent ''r1'' ''Quarterly numbers'' 600 660 jane)\<lparr>invitees := [jane, bob]\<rparr>"

definition carolReview :: event where
  "carolReview =
     (mkEvent ''r2'' ''Roadmap'' 630 690 jane)\<lparr>creator := Some carol, invitees := [jane, bob]\<rparr>"

definition reviewStore :: store where
  "reviewStore =
     \<lparr> userTable = [alice, jane, bob, carol], eventTable = [aliceReview, carolReview],
       auditTable = [], jobQueue = [] \<rparr>"

text \<open>
  Three overlapping events of different creators with Jane and Bob invited, and two
  overlapping events of Dave with Jane alone invited.
\<close>

definition dave :: user where
  "dave = \<lparr>userId = ''u5'', name = ''Dave'', email = ''dave@example.com''\<rparr>"

definition erin :: user where
  "erin = \<lparr>userId = ''u6'', name = ''Erin'', email = ''erin@example.com''\<rparr>"

definition auditPrep :: event where
  "auditPrep = (mkEvent ''a1'' ''Audit prep'' 600 660 jane)\<lparr>invitees := [jane, bob]\<rparr>"

definition hiringPlan :: event where
  "hiringPlan =
     (mkEvent ''a2'' ''Hiring plan'' 620 680 jane)\<lparr>creator := Some carol, invitees := [jane, bob]\<rparr>"

definition budgetDraft :: event where
  "budgetDraft =
     (mkEvent ''a3'' ''Budget draft'' 640 700 jane)\<lparr>creator := Some erin, invitees := [jane, bob]\<rparr>"

definition offsiteAgenda :: event where
  "offsiteAgenda = (mkEvent ''b1'' ''Offsite agenda'' 800 860 jane)\<lparr>creator := Some dave\<rparr>"

definition offsiteLogistics :: event where
  "offsiteLogistics = (mkEvent ''b2'' ''Offsite logistics'' 830 890 jane)\<lparr>creator := Some dave\<rparr>"

definition invitedStore :: store where
  "invitedStore =
     \<lparr> userTable = [alice, jane, bob, carol, dave, erin],
       eventTable = [auditPrep, hiringPlan, budgetDraft, offsiteAgenda, offsiteLogistics],
       auditTable = [], jobQueue = [] \<rparr>"

text \<open>A summarizer that reads nothing but the ids of the events it is given.\<close>

definition idListSummarizer :: "event list \<Rightarrow> string option" where
  "idListSummarizer events = Some (join '','' (map eventId events))"

section \<open>Properties of the synthesizer\<close>

lemma Max_insert_max:
  "finite S \<Longrightarrow> Max (insert (max a b) S) = Max (insert (a::int) (insert b S))"
  by (cases "S = {}") (simp_all add: max.assoc)

lemma foldl_latest:
  "foldl (\<lambda>latest event. if endTime event > latest then endTime event else latest) a xs
     = Max (insert a (endTime ` set xs))"
proof (induction xs arbitrary: a)
  case Nil
  then show ?case by simp
next
  case (Cons x xs)
  have "(if endTime x > a then endTime x else a) = max a (endTime x)"
    by (simp add: max_def)
  then show ?case
    using Cons.IH [of "max a (endTime x)"] Max_insert_max [of "endTime ` set xs" a "endTime x"]
    by simp
qed

lemma sorted_first_Min:
  assumes "sort_key startTime events = first # rest"
  shows "startTime first = Min (set (map startTime events))"
proof -
  have s: "sorted (map startTime (first # rest))"
    using assms sorted_sort_key [of startTime events] by simp
  have m: "set events = set (first # rest)"
    using assms set_sort [of startTime events] by simp
  have "\<forall>x \<in> set (first # rest). startTime first \<le> startTime x"
    using s by auto
  hence le: "\<forall>x \<in> set events. startTime first \<le> startTime x" unfolding m .
  have "first \<in> set events" unfolding m by simp
  thus ?thesis using le
    by (intro Min_eqI [symmetric]) auto
qed

lemma mergedEventData_times:
  assumes "mergedEventData events = Inr m"
  shows "startTime m = Min (set (map startTime events)) \<and> endTime m = Max (set (map endTime events))"
proof -
  obtain first rest where sk: "sort_key startTime events = first # rest"
    using assms by (cases "sort_key startTime events") (auto simp: mergedEventData_def)
  have m: "set events = set (first # rest)"
    using sk set_sort [of startTime events] by simp
  obtain c where c: "creator first = Some c"
    using assms sk by (cases "creator first") (auto simp: mergedEventData_def Let_def)
  have st: "startTime m = startTime first"
    using assms sk c by (auto simp: mergedEventData_def Let_def)
  have "endTime m = foldl (\<lambda>latest event. if endTime event > latest then endTime event else latest)
                  (endTime first) (first # rest)"
    using assms sk c by (auto simp: mergedEventData_def Let_def)
  hence "endTime m = Max (insert (endTime first) (endTime ` set (first # rest)))"
    by (simp only: foldl_latest)
  moreover have "insert (endTime first) (endTime ` set (first # rest)) = endTime ` set events"
    unfolding m by auto
  ultimately have et: "endTime m = Max (endTime ` set events)" by simp
  show ?thesis using st et sorted_first_Min [OF sk] by simp
qed

lemma mergedEventData_nonempty: "mergedEventData events = Inr m \<Longrightarrow> events \<noteq> []"
  by (auto simp: mergedEventData_def)

lemma mergeEvents_Inr:
  assumes "mergeEvents env events uid s = (Inr m, s')"
  shows "\<exists>d. mergedEventData events = Inr d \<and> m = d\<lparr>eventId := generatedEventId env\<rparr>"
  using assms by (auto simp: mergeEvents_def Let_def split: sum.splits if_splits)

text \<open>
  C3. Whenever \<open>mergeEvents\<close> returns a merged event for a group, its
  \<open>startTime\<close> is the minimum of the members' start times and its
  \<open>endTime\<close> the maximum of the members' end times, taken over exactly the
  events of the group it was given.
\<close>

theorem mergeEvents_time_range:
  assumes "mergeEvents env events uid s = (Inr m, s')"
  shows "startTime m = Min (set (map startTime events))
       \<and> endTime m = Max (set (map endTime events))"
proof -
  obtain d where d: "mergedEventData events = Inr d" and m: "m = d\<lparr>eventId := generatedEventId env\<rparr>"
    using mergeEvents_Inr [OF assms] by blast
  show ?thesis using mergedEventData_times [OF d] m by simp
qed

theorem mergeEvents_time_range_witness:
  "fst (mergeEvents quietEnv [teamMeeting, planning] ''u1'' twoEventStore) = Inr planningTeamMerged
   \<and> startTime planningTeamMerged = Min (set (map startTime [teamMeeting, planning]))
   \<and> endTime planningTeamMerged = Max (set (map endTime [teamMeeting, planning]))"
proof -
  have h: "mergeEvents quietEnv [teamMeeting, planning] ''u1'' twoEventStore
             = (Inr planningTeamMerged,
                twoEventStore\<lparr>eventTable := [planningTeamMerged]\<rparr>)"
    by code_simp
  show ?thesis using h mergeEvents_time_range [OF h] by simp
qed

text \<open>
  C9. If every member of the group has \<open>startTime < endTime\<close>, so has the
  merged event that \<open>mergeEvents\<close> returns, although nothing re-validates it.
\<close>

theorem mergeEvents_interval_valid:
  assumes "mergeEvents env events uid s = (Inr m, s')"
    and "\<forall>e \<in> set events. startTime e < endTime e"
  shows "startTime m < endTime m"
proof -
  obtain d where d: "mergedEventData events = Inr d" and m: "m = d\<lparr>eventId := generatedEventId env\<rparr>"
    using mergeEvents_Inr [OF assms(1)] by blast
  have ne: "events \<noteq> []" using mergedEventData_nonempty [OF d] .
  have t: "startTime m = Min (startTime ` set events)" "endTime m = Max (endTime ` set events)"
    using mergedEventData_times [OF d] m by simp_all
  have "Min (startTime ` set events) \<in> startTime ` set events"
    using ne by (intro Min_in) auto
  then obtain x where x: "x \<in> set events" "startTime x = Min (startTime ` set events)"
    by auto
  have "endTime x \<le> Max (endTime ` set events)"
    using x(1) by (intro Max_ge) auto
  moreover have "startTime x < endTime x" using assms(2) x(1) by blast
  ultimately show ?thesis using t x(2) by linarith
qed

theorem mergeEvents_interval_valid_witness:
  "fst (mergeEvents quietEnv [planning, teamMeeting] ''u1'' twoEventStore) = Inr planningTeamMerged
   \<and> startTime planning < endTime planning \<and> startTime teamMeeting < endTime teamMeeting
   \<and> startTime planningTeamMerged < endTime planningTeamMerged"
proof -
  have h: "mergeEvents quietEnv [planning, teamMeeting] ''u1'' twoEventStore
             = (Inr planningTeamMerged,
                twoEventStore\<lparr>eventTable := [planningTeamMerged]\<rparr>)"
    by code_simp
  have v: "\<forall>e \<in> set [planning, teamMeeting]. startTime e < endTime e"
    by (simp add: planning_def teamMeeting_def mkEvent_def)
  show ?thesis using h v mergeEvents_interval_valid [OF h v] by simp
qed

section \<open>Properties of the overlap predicate\<close>

text \<open>
  C6. Two events with valid intervals that touch (the end of one is the start of the
  other) pass the inclusive time test in either order, so \<open>isOverlapping\<close> is
  decided by the participant and title checks alone: the pair is not excluded for
  its times.
\<close>

theorem touching_events_time_overlap:
  assumes "startTime e1 < endTime e1" and "startTime e2 < endTime e2"
    and "endTime e1 = startTime e2"
  shows "timeOverlaps e1 e2 \<and> timeOverlaps e2 e1
       \<and> isOverlapping e1 e2 uid
           = (hasCommonParticipant e1 e2 uid \<and> areTitlesCompatible (title e1) (title e2))
       \<and> isOverlapping e2 e1 uid
           = (hasCommonParticipant e2 e1 uid \<and> areTitlesCompatible (title e2) (title e1))"
  using assms by (auto simp: timeOverlaps_def isOverlapping_def)

theorem touching_events_time_overlap_witness:
  "startTime planning < endTime planning \<and> startTime followUp < endTime followUp
   \<and> endTime planning = startTime followUp
   \<and> timeOverlaps planning followUp \<and> timeOverlaps followUp planning
   \<and> isOverlapping planning followUp ''u1'' \<and> isOverlapping followUp planning ''u1''"
proof -
  have h1: "startTime planning < endTime planning"
    by (simp add: planning_def mkEvent_def)
  have h2: "startTime followUp < endTime followUp"
    by (simp add: followUp_def mkEvent_def)
  have h3: "endTime planning = startTime followUp"
    by (simp add: planning_def followUp_def mkEvent_def)
  have p: "hasCommonParticipant planning followUp ''u1'' \<and> hasCommonParticipant followUp planning ''u1''"
    by code_simp
  have t: "areTitlesCompatible (title planning) (title followUp)
         \<and> areTitlesCompatible (title followUp) (title planning)"
    by code_simp
  show ?thesis
    using h1 h2 h3 p t touching_events_time_overlap [OF h1 h2 h3, of "''u1''"] by simp
qed

section \<open>Properties of the grouper\<close>

lemma scanEvents_processed:
  "scanEvents evs uid (grp, processed, found) = (grp', processed', found') \<Longrightarrow>
     processed \<subseteq> processed' \<and> processed' \<subseteq> processed \<union> eventId ` set evs"
proof (induction evs arbitrary: grp processed found)
  case Nil
  then show ?case by simp
next
  case (Cons otherEvent rest)
  show ?case
  proof (cases "eventId otherEvent \<in> processed")
    case True
    then show ?thesis using Cons.IH [of grp processed found] Cons.prems by auto
  next
    case False
    show ?thesis
    proof (cases "list_ex (\<lambda>e. isOverlapping e otherEvent uid) grp")
      case True
      then show ?thesis
        using Cons.IH [of "grp @ [otherEvent]" "insert (eventId otherEvent) processed" True]
          Cons.prems False by auto
    next
      case no: False
      then show ?thesis using Cons.IH [of grp processed found] Cons.prems False by auto
    qed
  qed
qed

lemma scanEvents_flag:
  "scanEvents evs uid (grp, processed, found) = (grp', processed', found') \<Longrightarrow>
     (found' \<longrightarrow> found \<or> processed \<subset> processed')
     \<and> (\<not> found' \<longrightarrow> \<not> found \<and> grp' = grp \<and> processed' = processed)"
proof (induction evs arbitrary: grp processed found)
  case Nil
  then show ?case by simp
next
  case (Cons otherEvent rest)
  show ?case
  proof (cases "eventId otherEvent \<in> processed")
    case True
    then show ?thesis using Cons.IH [of grp processed found] Cons.prems by auto
  next
    case False
    show ?thesis
    proof (cases "list_ex (\<lambda>e. isOverlapping e otherEvent uid) grp")
      case True
      have eq: "scanEvents rest uid (grp @ [otherEvent], insert (eventId otherEvent) processed, True)
                  = (grp', processed', found')"
        using Cons.prems False True by simp
      have "insert (eventId otherEvent) processed \<subseteq> processed'"
        using scanEvents_processed [OF eq] by blast
      hence "processed \<subset> processed'" using False by blast
      moreover have "found'" using Cons.IH [OF eq] by blast
      ultimately show ?thesis by blast
    next
      case no: False
      then show ?thesis using Cons.IH [of grp processed found] Cons.prems False by auto
    qed
  qed
qed

lemma expandGroup_returns:
  "\<exists>r. expandGroup events uid grp processed = Some r"
proof (induction "card (eventId ` set events - processed)" arbitrary: grp processed rule: less_induct)
  case less
  obtain grp' processed' found' where
    sc: "scanEvents events uid (grp, processed, False) = (grp', processed', found')"
    by (metis prod_cases3)
  show ?case
  proof (cases found')
    case True
    have sub: "processed \<subset> processed'" using scanEvents_flag [OF sc] True by blast
    have bnd: "processed' \<subseteq> processed \<union> eventId ` set events"
      using scanEvents_processed [OF sc] by blast
    have "eventId ` set events - processed' \<subset> eventId ` set events - processed"
      using sub bnd by blast
    hence "card (eventId ` set events - processed') < card (eventId ` set events - processed)"
      by (intro psubset_card_mono) auto
    from less [OF this, of grp'] obtain r where "expandGroup events uid grp' processed' = Some r"
      by blast
    thus ?thesis using sc True by (subst expandGroup.simps) simp
  next
    case False
    thus ?thesis using sc by (subst expandGroup.simps) simp
  qed
qed

lemma groupLoop_returns:
  "\<exists>groups'. groupLoop events uid todo groups processed = Some groups'"
proof (induction todo arbitrary: groups processed)
  case Nil
  show ?case by simp
next
  case (Cons e todo)
  show ?case
  proof (cases "eventId e \<in> processed")
    case True
    thus ?thesis using Cons.IH by simp
  next
    case False
    obtain grp processed' where
      "expandGroup events uid [e] (insert (eventId e) processed) = Some (grp, processed')"
      using expandGroup_returns [of events uid "[e]" "insert (eventId e) processed"] by auto
    thus ?thesis using False Cons.IH by simp
  qed
qed

text \<open>
  C10. The grouper always returns: the inner \<open>while\<close> loop stops for every
  starting group and processed set, because a round that sets \<open>foundOverlap\<close>
  has added an id of the input to \<open>processed\<close> (lemmas
  \<open>scanEvents_flag\<close> and \<open>scanEvents_processed\<close>), and the outer loop is a
  single pass over the input.
\<close>

theorem groupOverlappingEvents_terminates:
  "(\<exists>groups. groupOverlappingEvents events uid = Some groups)
   \<and> (\<exists>r. expandGroup events uid grp processed = Some r)"
  unfolding groupOverlappingEvents_def
  using groupLoop_returns [of events uid events "[]" "{}"] expandGroup_returns [of events uid grp processed]
  by blast

lemma scanEvents_no_overlap:
  assumes "\<forall>other \<in> set evs. eventId other \<notin> processed \<longrightarrow>
             \<not> list_ex (\<lambda>e. isOverlapping e other uid) grp"
  shows "scanEvents evs uid (grp, processed, found) = (grp, processed, found)"
  using assms by (induction evs) auto

lemma expandGroup_single:
  assumes "\<forall>other \<in> set events. eventId other \<noteq> eventId e \<longrightarrow> \<not> isOverlapping e other uid"
  shows "expandGroup events uid [e] (insert (eventId e) processed)
           = Some ([e], insert (eventId e) processed)"
proof -
  have "scanEvents events uid ([e], insert (eventId e) processed, False)
          = ([e], insert (eventId e) processed, False)"
    using assms by (intro scanEvents_no_overlap) auto
  thus ?thesis by (subst expandGroup.simps) simp
qed

lemma groupLoop_no_overlap:
  assumes "\<forall>e \<in> set todo. \<forall>other \<in> set events.
             eventId other \<noteq> eventId e \<longrightarrow> \<not> isOverlapping e other uid"
  shows "groupLoop events uid todo groups processed = Some groups"
  using assms
proof (induction todo arbitrary: processed)
  case Nil
  show ?case by simp
next
  case (Cons e todo)
  have ih: "\<And>p. groupLoop events uid todo groups p = Some groups"
    using Cons by simp
  have ex: "expandGroup events uid [e] (insert (eventId e) processed)
              = Some ([e], insert (eventId e) processed)"
    using Cons.prems by (intro expandGroup_single) simp
  show ?case using ih ex by simp
qed

lemma no_common_not_overlapping:
  "participants e1 uid \<inter> participants e2 uid = {} \<Longrightarrow> \<not> isOverlapping e1 e2 uid"
  by (auto simp: isOverlapping_def hasCommonParticipant_def)

text \<open>
  C5. Two events whose participant sets, with the invoking user's id removed, are
  disjoint never pass \<open>isOverlapping\<close>. So when the user exists and every two
  non-canceled events loaded for the user (events with different ids) are such a
  pair, \<open>mergeAll\<close> throws a \<open>BadRequestException\<close> and leaves the tables
  as they were.
\<close>

theorem only_invoker_shared_never_merges:
  "(participants e1 uid \<inter> participants e2 uid = {} \<longrightarrow> \<not> isOverlapping e1 e2 uid)
   \<and> (list_ex (\<lambda>u. userId u = uid) (userTable s)
        \<and> (\<forall>a \<in> set (mergeableEvents uid s). \<forall>b \<in> set (mergeableEvents uid s).
              eventId a \<noteq> eventId b \<longrightarrow> participants a uid \<inter> participants b uid = {})
      \<longrightarrow> (\<exists>msg. mergeAll env uid s = Some (Inl (BadRequestException msg), s)))"
proof (intro conjI impI)
  assume "participants e1 uid \<inter> participants e2 uid = {}"
  thus "\<not> isOverlapping e1 e2 uid" by (rule no_common_not_overlapping)
next
  assume h: "list_ex (\<lambda>u. userId u = uid) (userTable s)
        \<and> (\<forall>a \<in> set (mergeableEvents uid s). \<forall>b \<in> set (mergeableEvents uid s).
              eventId a \<noteq> eventId b \<longrightarrow> participants a uid \<inter> participants b uid = {})"
  have "\<forall>a \<in> set (mergeableEvents uid s). \<forall>b \<in> set (mergeableEvents uid s).
          eventId b \<noteq> eventId a \<longrightarrow> \<not> isOverlapping a b uid"
    using h no_common_not_overlapping by metis
  hence "groupOverlappingEvents (mergeableEvents uid s) uid = Some []"
    unfolding groupOverlappingEvents_def by (rule groupLoop_no_overlap)
  thus "\<exists>msg. mergeAll env uid s = Some (Inl (BadRequestException msg), s)"
    using h by (simp add: mergeAll_def)
qed
theorem only_invoker_shared_never_merges_witness:
  "participants designTalk ''u1'' \<inter> participants budgetTalk ''u1'' = {}
   \<and> \<not> isOverlapping designTalk budgetTalk ''u1''
   \<and> list_ex (\<lambda>u. userId u = ''u1'') (userTable disjointStore)
   \<and> mergeableEvents ''u1'' disjointStore = [designTalk, budgetTalk]
   \<and> mergeAll quietEnv ''u1'' disjointStore
        = Some (Inl (BadRequestException ''No overlapping events found to merge''), disjointStore)"
proof -
  have p: "participants designTalk ''u1'' \<inter> participants budgetTalk ''u1'' = {}"
    by code_simp
  have q: "participants budgetTalk ''u1'' \<inter> participants designTalk ''u1'' = {}"
    using p by blast
  have u: "list_ex (\<lambda>u. userId u = ''u1'') (userTable disjointStore)"
    by code_simp
  have m: "mergeableEvents ''u1'' disjointStore = [designTalk, budgetTalk]"
    by code_simp
  have pairs: "\<forall>a \<in> set (mergeableEvents ''u1'' disjointStore).
                 \<forall>b \<in> set (mergeableEvents ''u1'' disjointStore).
                   eventId a \<noteq> eventId b \<longrightarrow> participants a ''u1'' \<inter> participants b ''u1'' = {}"
    unfolding m using p q by simp
  have r: "mergeAll quietEnv ''u1'' disjointStore
             = Some (Inl (BadRequestException ''No overlapping events found to merge''), disjointStore)"
    by code_simp
  show ?thesis
    using p u m r pairs
      only_invoker_shared_never_merges [of designTalk "''u1''" budgetTalk disjointStore quietEnv]
    by blast
qed

section \<open>Properties of the group selection\<close>

lemma foldl_largest_split:
  assumes "\<forall>x \<in> set pre0. length x < length g" and "\<forall>x \<in> set mid. length x \<le> length g"
  shows "\<exists>pre post.
           pre0 @ g # mid @ gs
             = pre @ foldl (\<lambda>prev current. if length current > length prev then current else prev) g gs # post
         \<and> (\<forall>x \<in> set pre. length x
               < length (foldl (\<lambda>prev current. if length current > length prev then current else prev) g gs))
         \<and> (\<forall>x \<in> set post. length x
               \<le> length (foldl (\<lambda>prev current. if length current > length prev then current else prev) g gs))"
  using assms
proof (induction gs arbitrary: pre0 g mid)
  case Nil
  then show ?case by auto
next
  case (Cons x xs)
  show ?case
  proof (cases "length x > length g")
    case True
    have a: "\<forall>y \<in> set (pre0 @ g # mid). length y < length x"
      using Cons.prems True by fastforce
    have b: "\<forall>y \<in> set ([]::'a list list). length y \<le> length x" by simp
    from Cons.IH [OF a b] show ?thesis using True by simp
  next
    case False
    have b: "\<forall>y \<in> set (mid @ [x]). length y \<le> length g"
      using Cons.prems False by auto
    from Cons.IH [OF Cons.prems(1) b] show ?thesis using False by simp
  qed
qed

lemma largestGroup_first_max:
  assumes "largestGroup groups = Inr largest"
  shows "\<exists>pre post. groups = pre @ largest # post
           \<and> (\<forall>x \<in> set pre. length x < length largest)
           \<and> (\<forall>x \<in> set post. length x \<le> length largest)"
proof (cases groups)
  case Nil
  then show ?thesis using assms by (simp add: largestGroup_def)
next
  case (Cons g gs)
  have l: "largest = foldl (\<lambda>prev current. if length current > length prev then current else prev) g gs"
    using assms Cons by (simp add: largestGroup_def)
  show ?thesis
    using foldl_largest_split [of "[]" g "[]" gs] unfolding l Cons by simp
qed

lemma scanEvents_members:
  "scanEvents evs uid (grp, processed, found) = (grp', processed', found') \<Longrightarrow>
     set grp' \<subseteq> set grp \<union> set evs"
proof (induction evs arbitrary: grp processed found)
  case Nil
  then show ?case by simp
next
  case (Cons otherEvent rest)
  show ?case
  proof (cases "eventId otherEvent \<in> processed")
    case True
    then show ?thesis using Cons.IH [of grp processed found] Cons.prems by auto
  next
    case False
    show ?thesis
    proof (cases "list_ex (\<lambda>e. isOverlapping e otherEvent uid) grp")
      case True
      then show ?thesis
        using Cons.IH [of "grp @ [otherEvent]" "insert (eventId otherEvent) processed" True]
          Cons.prems False by auto
    next
      case no: False
      then show ?thesis using Cons.IH [of grp processed found] Cons.prems False by auto
    qed
  qed
qed

lemma expandGroup_invariant:
  assumes "expandGroup events uid grp processed = Some (grp', processed')"
    and "I grp processed"
    and "\<And>g p g2 p2 f. I g p \<Longrightarrow> scanEvents events uid (g, p, False) = (g2, p2, f) \<Longrightarrow> I g2 p2"
  shows "I grp' processed' \<and> scanEvents events uid (grp', processed', False) = (grp', processed', False)"
  using assms(1,2)
proof (induction "card (eventId ` set events - processed)" arbitrary: grp processed rule: less_induct)
  case less
  obtain g2 p2 f where sc: "scanEvents events uid (grp, processed, False) = (g2, p2, f)"
    by (metis prod_cases3)
  have i2: "I g2 p2" using assms(3) [OF less.prems(2) sc] .
  show ?case
  proof (cases f)
    case True
    have sub: "processed \<subset> p2" using scanEvents_flag [OF sc] True by blast
    have bnd: "p2 \<subseteq> processed \<union> eventId ` set events"
      using scanEvents_processed [OF sc] by blast
    have "eventId ` set events - p2 \<subset> eventId ` set events - processed"
      using sub bnd by blast
    hence c: "card (eventId ` set events - p2) < card (eventId ` set events - processed)"
      by (intro psubset_card_mono) auto
    have "expandGroup events uid g2 p2 = Some (grp', processed')"
      using less.prems(1) sc True by (subst (asm) expandGroup.simps) simp
    from less.hyps [OF c this i2] show ?thesis .
  next
    case False
    have same: "g2 = grp" "p2 = processed" using scanEvents_flag [OF sc] False by auto
    have "grp' = g2" "processed' = p2"
      using less.prems(1) sc False by (subst (asm) expandGroup.simps, simp)+
    thus ?thesis using i2 sc same False by simp
  qed
qed

lemma expandGroup_members:
  assumes "expandGroup events uid grp processed = Some (grp', processed')"
    and "set grp \<subseteq> set events"
  shows "set grp' \<subseteq> set events"
proof -
  have "(\<lambda>g p. set g \<subseteq> set events) grp' processed'
        \<and> scanEvents events uid (grp', processed', False) = (grp', processed', False)"
  proof (rule expandGroup_invariant [OF assms(1)])
    show "set grp \<subseteq> set events" by (rule assms(2))
  next
    fix g p g2 p2 f
    assume "set g \<subseteq> set events" "scanEvents events uid (g, p, False) = (g2, p2, f)"
    thus "set g2 \<subseteq> set events" using scanEvents_members by blast
  qed
  thus ?thesis by simp
qed

lemma groupLoop_members:
  assumes "groupLoop events uid todo groups processed = Some groups'"
    and "set todo \<subseteq> set events"
    and "\<forall>g \<in> set groups. set g \<subseteq> set events \<and> length g > 1"
  shows "\<forall>g \<in> set groups'. set g \<subseteq> set events \<and> length g > 1"
  using assms
proof (induction todo arbitrary: groups processed)
  case Nil
  then show ?case by simp
next
  case (Cons e todo)
  show ?case
  proof (cases "eventId e \<in> processed")
    case True
    then show ?thesis using Cons by simp
  next
    case False
    obtain grp p2 where ex: "expandGroup events uid [e] (insert (eventId e) processed) = Some (grp, p2)"
      using expandGroup_returns [of events uid "[e]" "insert (eventId e) processed"] by auto
    have sub: "set grp \<subseteq> set events"
      using expandGroup_members [OF ex] Cons.prems(2) by simp
    have gl: "groupLoop events uid todo (if length grp > 1 then groups @ [grp] else groups) p2 = Some groups'"
      using Cons.prems(1) False ex by simp
    have inv: "\<forall>g \<in> set (if length grp > 1 then groups @ [grp] else groups). set g \<subseteq> set events \<and> length g > 1"
      using Cons.prems(3) sub by auto
    show ?thesis using Cons.IH [OF gl _ inv] Cons.prems(2) by simp
  qed
qed

lemma groupOverlappingEvents_members:
  assumes "groupOverlappingEvents events uid = Some groups"
  shows "\<forall>g \<in> set groups. set g \<subseteq> set events \<and> length g > 1"
  using groupLoop_members [of events uid events "[]" "{}" groups] assms
  by (simp add: groupOverlappingEvents_def)

section \<open>Properties of the orchestrator\<close>

lemma loadEvent_id: "loadEvent uid e = Some x \<Longrightarrow> eventId x = eventId e"
  by (auto simp: loadEvent_def split: if_splits)

lemma loadEvents_ids: "eventId ` set (loadEvents uid s) \<subseteq> eventId ` set (eventTable s)"
proof
  fix i assume "i \<in> eventId ` set (loadEvents uid s)"
  then obtain x where x: "x \<in> set (loadEvents uid s)" "i = eventId x" by blast
  then obtain e where e: "e \<in> set (eventTable s)" "loadEvent uid e = Some x"
    by (auto simp: loadEvents_def List.map_filter_def)
  thus "i \<in> eventId ` set (eventTable s)" using x(2) loadEvent_id [OF e(2)] by auto
qed

text \<open>
  An invited user sees only the own invitation on events of other creators: for
  Jane the two reviews share no participant, although Bob is invited to both.
\<close>

lemma mergeAll_invited_user_example:
  "loadEvents ''u2'' reviewStore
     = [aliceReview\<lparr>invitees := [jane]\<rparr>, carolReview\<lparr>invitees := [jane]\<rparr>]
   \<and> mergeAll quietEnv ''u2'' reviewStore
     = Some (Inl (BadRequestException ''No overlapping events found to merge''), reviewStore)
   \<and> isOverlapping aliceReview carolReview ''u2''"
  by code_simp

lemma mergeEvents_store:
  assumes "mergeEvents env events uid s = (Inr m, s')"
  shows "s' = s\<lparr>eventTable :=
                 filter (\<lambda>e. eventId e \<notin> eventId ` set events) (eventTable s @ [m])\<rparr>
         \<and> eventId m = generatedEventId env"
  using assms
  by (auto simp: mergeEvents_def Let_def split: sum.splits if_splits)

lemma mergedEventData_mergedFrom:
  "mergedEventData events = Inr d \<Longrightarrow> mergedFrom d = Some (map eventId (sort_key startTime events))"
  by (auto simp: mergedEventData_def Let_def split: list.splits option.splits)

lemma insertAudit_events: "insertAudit env a s = (r, s') \<Longrightarrow> eventTable s' = eventTable s \<and> userTable s' = userTable s"
  by (auto simp: insertAudit_def Let_def split: if_splits)

lemma updateAudit_events: "updateAudit env a s = (r, s') \<Longrightarrow> eventTable s' = eventTable s \<and> userTable s' = userTable s"
  by (auto simp: updateAudit_def split: if_splits)

lemma summarizing_events:
  "summarizing env uid largest m a s = (r, s') \<Longrightarrow> eventTable s' = eventTable s \<and> userTable s' = userTable s"
  by (auto simp: summarizing_def split: option.splits if_splits sum.splits prod.splits dest!: updateAudit_events)

lemma summarizing_ids:
  "summarizing env uid largest m a s = (Inr a', s') \<Longrightarrow> mergedEventIds a' = mergedEventIds a"
  by (auto simp: summarizing_def updateAudit_def split: option.splits if_splits sum.splits prod.splits)

lemma mergeAll_success:
  assumes "mergeAll env uid s = Some (Inr (m, a), s')"
  shows "\<exists>groups largest s1 a1 s2.
           list_ex (\<lambda>u. userId u = uid) (userTable s)
         \<and> \<not> length (loadEvents uid s) < 2
         \<and> \<not> length (mergeableEvents uid s) < 2
         \<and> groupOverlappingEvents (mergeableEvents uid s) uid = Some groups
         \<and> length groups \<noteq> 0
         \<and> largestGroup groups = Inr largest
         \<and> mergeEvents env largest uid s = (Inr m, s1)
         \<and> insertAudit env \<lparr> auditId = [], auditUserId = uid, newEventId = eventId m,
                                mergedEventIds = map eventId largest, auditNotes = None \<rparr> s1 = (Inr a1, s2)
         \<and> summarizing env uid largest m a1 s2 = (Inr a, s')"
  using assms
  by (auto simp: mergeAll_def Let_def split: if_splits option.splits sum.splits prod.splits)

text \<open>
  With Jane asking, the three events she shares with Bob do not group (each is
  loaded with Jane as only invitee, and the creators differ); Dave's two events do,
  and they are the ones replaced.
\<close>

lemma mergeAll_invited_user_groups_example:
  "groupOverlappingEvents (mergeableEvents ''u2'' invitedStore) ''u2''
     = Some [[offsiteAgenda, offsiteLogistics]]
   \<and> map_option (\<lambda>(r, s). map eventId (eventTable s)) (mergeAll quietEnv ''u2'' invitedStore)
     = Some [''a1'', ''a2'', ''a3'', ''m1'']"
  by code_simp

text \<open>
  The synchronous summarizer is handed the removed entities: one that lists the ids
  it sees writes a lone comma for two events.
\<close>

lemma mergeAll_summarizer_sees_removed_entities:
  "map_option (\<lambda>(r, s). map auditNotes (auditTable s))
     (mergeAll (quietEnv\<lparr>aiService := Some idListSummarizer\<rparr>) ''u1'' twoEventStore)
     = Some [Some '','']"
  by code_simp

text \<open>
  C4. When \<open>mergeAll\<close> succeeds, the group it merged is the first group of
  maximal length in the grouper's output on the non-canceled events the query
  loaded (every group before it is strictly shorter, every group after it at most
  as long). The merged event records exactly that group's ids, the audit row lists
  them, and the event table afterwards is the old table without the rows that have
  one of these ids, every other row as it was and in place, followed by the merged
  event. The database is taken to give the merged event an
  id that no stored event has.
\<close>

theorem mergeAll_merges_largest_group:
  assumes "mergeAll env uid s = Some (Inr (m, a), s')"
    and "generatedEventId env \<notin> eventId ` set (eventTable s)"
  shows "\<exists>groups pre largest post.
           groupOverlappingEvents (mergeableEvents uid s) uid = Some groups
         \<and> groups = pre @ largest # post
         \<and> (\<forall>g \<in> set pre. length g < length largest)
         \<and> (\<forall>g \<in> set post. length g \<le> length largest)
         \<and> mergedFrom m = Some (map eventId (sort_key startTime largest))
         \<and> mergedEventIds a = map eventId largest
         \<and> eventTable s' = filter (\<lambda>e. eventId e \<notin> eventId ` set largest) (eventTable s) @ [m]
         \<and> userTable s' = userTable s"
proof -
  obtain groups largest s1 a1 s2 where
    g: "groupOverlappingEvents (mergeableEvents uid s) uid = Some groups"
    and l: "largestGroup groups = Inr largest"
    and me: "mergeEvents env largest uid s = (Inr m, s1)"
    and ia: "insertAudit env \<lparr> auditId = [], auditUserId = uid, newEventId = eventId m,
                                mergedEventIds = map eventId largest, auditNotes = None \<rparr> s1 = (Inr a1, s2)"
    and su: "summarizing env uid largest m a1 s2 = (Inr a, s')"
    using mergeAll_success [OF assms(1)] by blast
  obtain pre post where sp: "groups = pre @ largest # post"
    "\<forall>x \<in> set pre. length x < length largest" "\<forall>x \<in> set post. length x \<le> length largest"
    using largestGroup_first_max [OF l] by blast
  have "largest \<in> set groups" using sp(1) by simp
  hence "set largest \<subseteq> set (mergeableEvents uid s)"
    using groupOverlappingEvents_members [OF g] by blast
  hence "set largest \<subseteq> set (loadEvents uid s)"
    by (auto simp: mergeableEvents_def)
  hence "eventId ` set largest \<subseteq> eventId ` set (loadEvents uid s)" by (rule image_mono)
  hence sub: "eventId ` set largest \<subseteq> eventId ` set (eventTable s)"
    using loadEvents_ids [of uid s] by (rule subset_trans)
  have s1: "s1 = s\<lparr>eventTable := filter (\<lambda>e. eventId e \<notin> eventId ` set largest) (eventTable s @ [m])\<rparr>"
    and mid: "eventId m = generatedEventId env"
    using mergeEvents_store [OF me] by simp_all
  have "eventId m \<notin> eventId ` set largest" using sub mid assms(2) by auto
  hence et1: "eventTable s1 = filter (\<lambda>e. eventId e \<notin> eventId ` set largest) (eventTable s) @ [m]"
    using s1 by simp
  have ut1: "userTable s1 = userTable s" using s1 by simp
  have e2: "eventTable s2 = eventTable s1" "userTable s2 = userTable s1"
    using insertAudit_events [OF ia] by simp_all
  have e3: "eventTable s' = eventTable s2" "userTable s' = userTable s2"
    using summarizing_events [OF su] by simp_all
  obtain d where d: "mergedEventData largest = Inr d" "m = d\<lparr>eventId := generatedEventId env\<rparr>"
    using mergeEvents_Inr [OF me] by blast
  have mf: "mergedFrom m = Some (map eventId (sort_key startTime largest))"
    using mergedEventData_mergedFrom [OF d(1)] d(2) by simp
  have "mergedEventIds a1 = map eventId largest"
    using ia by (auto simp: insertAudit_def Let_def split: if_splits)
  hence ids: "mergedEventIds a = map eventId largest" using summarizing_ids [OF su] by simp
  show ?thesis using g sp mf ids et1 ut1 e2 e3 by auto
qed

theorem mergeAll_merges_largest_group_witness:
  "mergeAll quietEnv ''u1'' fiveEventStore
     = Some (Inr (group2Merged, group2Audit), fiveEventStoreMerged)
   \<and> generatedEventId quietEnv \<notin> eventId ` set (eventTable fiveEventStore)
   \<and> groupOverlappingEvents (mergeableEvents ''u1'' fiveEventStore) ''u1''
        = Some [[group1Event1, group1Event2], [group2Event1, group2Event2, group2Event3]]
   \<and> mergedEventIds group2Audit = map eventId [group2Event1, group2Event2, group2Event3]
   \<and> eventTable fiveEventStoreMerged = [group1Event1, group1Event2, group2Merged]
   \<and> userTable fiveEventStoreMerged = userTable fiveEventStore"
proof -
  have h: "mergeAll quietEnv ''u1'' fiveEventStore
             = Some (Inr (group2Merged, group2Audit), fiveEventStoreMerged)"
    by code_simp
  have f: "generatedEventId quietEnv \<notin> eventId ` set (eventTable fiveEventStore)"
    by code_simp
  have g: "groupOverlappingEvents (mergeableEvents ''u1'' fiveEventStore) ''u1''
             = Some [[group1Event1, group1Event2], [group2Event1, group2Event2, group2Event3]]"
    by code_simp
  have i: "mergedEventIds group2Audit = map eventId [group2Event1, group2Event2, group2Event3]"
    by code_simp
  have t: "eventTable fiveEventStoreMerged = [group1Event1, group1Event2, group2Merged]"
    by (simp add: fiveEventStoreMerged_def)
  have "userTable fiveEventStoreMerged = userTable fiveEventStore"
    using mergeAll_merges_largest_group [OF h f] by blast
  thus ?thesis using h f g i t by simp
qed

section \<open>The grouper on a symmetric overlap relation\<close>

text \<open>
  When the events have distinct ids and \<open>isOverlapping\<close> is symmetric on them,
  the grouper returns connected components: every returned group has at least two
  members, contains every event one of its members overlaps with, and links any two
  of its members by a chain of overlaps; and any chain \<open>a\<close>, \<open>b\<close>,
  \<open>c\<close> of overlapping events lies in one returned group. The proof follows a
  group grown from its seed \<open>e\<close> while \<open>p0\<close> is the set of ids processed
  before.
\<close>

lemma scanEvents_fixpoint:
  "scanEvents rest uid (grp, p, False) = (grp', p', False) \<Longrightarrow>
     \<forall>other \<in> set rest. eventId other \<notin> p \<longrightarrow> \<not> list_ex (\<lambda>e. isOverlapping e other uid) grp"
proof (induction rest)
  case Nil
  show ?case by simp
next
  case (Cons otherEvent rest)
  show ?case
  proof (cases "eventId otherEvent \<in> p")
    case True
    hence "scanEvents rest uid (grp, p, False) = (grp', p', False)"
      using Cons.prems by simp
    from Cons.IH [OF this] show ?thesis using True by simp
  next
    case False
    show ?thesis
    proof (cases "list_ex (\<lambda>e. isOverlapping e otherEvent uid) grp")
      case True
      hence "scanEvents rest uid (grp @ [otherEvent], insert (eventId otherEvent) p, True) = (grp', p', False)"
        using Cons.prems False by simp
      hence False using scanEvents_flag by blast
      thus ?thesis ..
    next
      case no: False
      hence "scanEvents rest uid (grp, p, False) = (grp', p', False)"
        using Cons.prems False by simp
      from Cons.IH [OF this] show ?thesis using no by simp
    qed
  qed
qed

lemma scanEvents_seed_invariant:
  assumes "scanEvents rest uid (grp, p, found) = (grp', p', found')"
    and "set rest \<subseteq> set evs"
    and "set grp \<subseteq> set evs" and "e \<in> set grp"
    and "p = p0 \<union> eventId ` set grp" and "eventId ` set grp \<inter> p0 = {}"
    and "\<forall>b \<in> set grp. (e, b) \<in> {(a, b). a \<in> set evs \<and> b \<in> set evs \<and> isOverlapping a b uid}\<^sup>*"
  shows "set grp' \<subseteq> set evs \<and> e \<in> set grp'
       \<and> p' = p0 \<union> eventId ` set grp' \<and> eventId ` set grp' \<inter> p0 = {}
       \<and> (\<forall>b \<in> set grp'. (e, b) \<in> {(a, b). a \<in> set evs \<and> b \<in> set evs \<and> isOverlapping a b uid}\<^sup>*)"
  using assms
proof (induction rest arbitrary: grp p found)
  case Nil
  have "grp' = grp" "p' = p" using Nil.prems(1) by simp_all
  then show ?case using Nil.prems(3-7) by simp
next
  case (Cons otherEvent rest)
  let ?Rel = "{(a, b). a \<in> set evs \<and> b \<in> set evs \<and> isOverlapping a b uid}"
  have a1: "set rest \<subseteq> set evs" using Cons.prems(2) by simp
  show ?case
  proof (cases "eventId otherEvent \<in> p")
    case True
    have sc: "scanEvents rest uid (grp, p, found) = (grp', p', found')"
      using Cons.prems(1) True by simp
    show ?thesis by (rule Cons.IH [OF sc a1 Cons.prems(3-7)])
  next
    case False
    show ?thesis
    proof (cases "list_ex (\<lambda>x. isOverlapping x otherEvent uid) grp")
      case True
      have sc: "scanEvents rest uid (grp @ [otherEvent], insert (eventId otherEvent) p, True) = (grp', p', found')"
        using Cons.prems(1) True False by simp
      have oe: "otherEvent \<in> set evs" using Cons.prems(2) by simp
      obtain x where x: "x \<in> set grp" "isOverlapping x otherEvent uid"
        using True by (auto simp: list_ex_iff)
      have "(e, x) \<in> ?Rel\<^sup>*" using Cons.prems(7) x(1) by blast
      moreover have "(x, otherEvent) \<in> ?Rel" using x oe Cons.prems(3) by auto
      ultimately have reach: "(e, otherEvent) \<in> ?Rel\<^sup>*" by (rule rtrancl_into_rtrancl)
      have a2: "set (grp @ [otherEvent]) \<subseteq> set evs" using Cons.prems(3) oe by simp
      have a3: "e \<in> set (grp @ [otherEvent])" using Cons.prems(4) by simp
      have a4: "insert (eventId otherEvent) p = p0 \<union> eventId ` set (grp @ [otherEvent])"
        using Cons.prems(5) by auto
      have "eventId otherEvent \<notin> p0" using False Cons.prems(5) by simp
      hence a5: "eventId ` set (grp @ [otherEvent]) \<inter> p0 = {}"
        using Cons.prems(6) by auto
      have a6: "\<forall>b \<in> set (grp @ [otherEvent]). (e, b) \<in> ?Rel\<^sup>*"
        using Cons.prems(7) reach by simp
      show ?thesis by (rule Cons.IH [OF sc a1 a2 a3 a4 a5 a6])
    next
      case no: False
      have sc: "scanEvents rest uid (grp, p, found) = (grp', p', found')"
        using Cons.prems(1) False no by simp
      show ?thesis by (rule Cons.IH [OF sc a1 Cons.prems(3-7)])
    qed
  qed
qed

lemma expandGroup_seed:
  assumes ex: "expandGroup evs uid [e] (insert (eventId e) p0) = Some (g, p')"
    and e: "e \<in> set evs" and fresh: "eventId e \<notin> p0"
  shows "set g \<subseteq> set evs \<and> e \<in> set g
       \<and> p' = p0 \<union> eventId ` set g \<and> eventId ` set g \<inter> p0 = {}
       \<and> (\<forall>b \<in> set g. (e, b) \<in> {(a, b). a \<in> set evs \<and> b \<in> set evs \<and> isOverlapping a b uid}\<^sup>*)
       \<and> (\<forall>other \<in> set evs. eventId other \<notin> p' \<longrightarrow> (\<forall>x \<in> set g. \<not> isOverlapping x other uid))"
proof -
  define I where "I = (\<lambda>grp p. set grp \<subseteq> set evs \<and> e \<in> set grp
       \<and> p = p0 \<union> eventId ` set grp \<and> eventId ` set grp \<inter> p0 = {}
       \<and> (\<forall>b \<in> set grp. (e, b) \<in> {(a, b). a \<in> set evs \<and> b \<in> set evs \<and> isOverlapping a b uid}\<^sup>*))"
  have init: "I [e] (insert (eventId e) p0)" unfolding I_def using e fresh by simp
  have step: "I g2 p2" if i: "I grp p" and sc: "scanEvents evs uid (grp, p, False) = (g2, p2, f)"
    for grp p g2 p2 f
  proof -
    have s: "set evs \<subseteq> set evs" by simp
    show ?thesis unfolding I_def
      by (rule scanEvents_seed_invariant [OF sc s]) (use i in \<open>simp_all add: I_def\<close>)
  qed
  have res: "I g p' \<and> scanEvents evs uid (g, p', False) = (g, p', False)"
    using ex init step by (rule expandGroup_invariant)
  hence "\<forall>other \<in> set evs. eventId other \<notin> p' \<longrightarrow> \<not> list_ex (\<lambda>x. isOverlapping x other uid) g"
    using scanEvents_fixpoint by blast
  hence fp: "\<forall>other \<in> set evs. eventId other \<notin> p' \<longrightarrow> (\<forall>x \<in> set g. \<not> isOverlapping x other uid)"
    by (simp add: list_ex_iff)
  have "I g p'" using res by simp
  thus ?thesis using fp unfolding I_def by simp
qed

lemma same_id_same_event:
  assumes "distinct (map eventId evs)" and "a \<in> set evs" and "b \<in> set evs" and "eventId a = eventId b"
  shows "a = b"
  using assms by (meson distinct_map inj_onD)

lemma group_step:
  fixes evs :: "event list" and uid :: string
  defines "Rel \<equiv> {(a, b). a \<in> set evs \<and> b \<in> set evs \<and> isOverlapping a b uid}"
  defines "Q \<equiv> \<lambda>groups p.
      (\<forall>g \<in> set groups. length g > 1 \<and> set g \<subseteq> set evs
          \<and> (\<forall>a \<in> set g. \<forall>b \<in> set evs. isOverlapping a b uid \<longrightarrow> b \<in> set g)
          \<and> (\<forall>a \<in> set g. \<forall>b \<in> set g. (a, b) \<in> Rel\<^sup>*))
    \<and> (\<forall>a \<in> set evs. eventId a \<in> p \<longrightarrow> (\<forall>b \<in> set evs. isOverlapping a b uid \<longrightarrow> eventId b \<in> p))
    \<and> (\<forall>a \<in> set evs. eventId a \<in> p \<longrightarrow>
          (\<exists>g \<in> set groups. a \<in> set g) \<or> (\<forall>b \<in> set evs. isOverlapping a b uid \<longrightarrow> b = a))"
  assumes D: "distinct (map eventId evs)"
    and S: "\<forall>a \<in> set evs. \<forall>b \<in> set evs. isOverlapping a b uid \<longrightarrow> isOverlapping b a uid"
    and q: "Q groups p0"
    and e: "e \<in> set evs" and fresh: "eventId e \<notin> p0"
    and ex: "expandGroup evs uid [e] (insert (eventId e) p0) = Some (g, p')"
  shows "Q (if length g > 1 then groups @ [g] else groups) p' \<and> insert (eventId e) p0 \<subseteq> p'"
proof -
  have seed: "set g \<subseteq> set evs" "e \<in> set g" "p' = p0 \<union> eventId ` set g" "eventId ` set g \<inter> p0 = {}"
    and reach: "\<forall>b \<in> set g. (e, b) \<in> Rel\<^sup>*"
    and fp: "\<forall>other \<in> set evs. eventId other \<notin> p' \<longrightarrow> (\<forall>x \<in> set g. \<not> isOverlapping x other uid)"
    using expandGroup_seed [OF ex e fresh] unfolding Rel_def by simp_all
  have oldclosed: "\<forall>a \<in> set evs. eventId a \<in> p0 \<longrightarrow> (\<forall>b \<in> set evs. isOverlapping a b uid \<longrightarrow> eventId b \<in> p0)"
    using q unfolding Q_def by blast
  have closed: "b \<in> set g" if a: "a \<in> set g" and b: "b \<in> set evs" and r: "isOverlapping a b uid" for a b
  proof -
    have aev: "a \<in> set evs" using a seed(1) by blast
    have "eventId b \<in> p'" using fp a b r by blast
    hence "eventId b \<in> p0 \<or> eventId b \<in> eventId ` set g" using seed(3) by blast
    thus ?thesis
    proof
      assume bp: "eventId b \<in> p0"
      have "isOverlapping b a uid" using S aev b r by blast
      hence "eventId a \<in> p0" using oldclosed b bp aev by blast
      hence False using a seed(4) by blast
      thus ?thesis ..
    next
      assume "eventId b \<in> eventId ` set g"
      then obtain b' where b': "b' \<in> set g" "eventId b = eventId b'" by blast
      have "b = b'" using same_id_same_event [OF D b _ b'(2)] b'(1) seed(1) by blast
      thus ?thesis using b'(1) by simp
    qed
  qed
  have "sym Rel" unfolding Rel_def sym_def using S by blast
  hence symr: "sym (Rel\<^sup>*)" by (rule sym_rtrancl)
  have conn: "(a, b) \<in> Rel\<^sup>*" if "a \<in> set g" "b \<in> set g" for a b
  proof -
    have "(e, a) \<in> Rel\<^sup>*" "(e, b) \<in> Rel\<^sup>*" using reach that by blast+
    hence "(a, e) \<in> Rel\<^sup>*" using symr by (meson symD)
    thus ?thesis using \<open>(e, b) \<in> Rel\<^sup>*\<close> by (rule rtrancl_trans)
  qed
  let ?groups' = "if length g > 1 then groups @ [g] else groups"
  have oldgroups: "\<forall>h \<in> set groups. length h > 1 \<and> set h \<subseteq> set evs
          \<and> (\<forall>a \<in> set h. \<forall>b \<in> set evs. isOverlapping a b uid \<longrightarrow> b \<in> set h)
          \<and> (\<forall>a \<in> set h. \<forall>b \<in> set h. (a, b) \<in> Rel\<^sup>*)"
    using q unfolding Q_def by blast
  have c1: "\<forall>h \<in> set ?groups'. length h > 1 \<and> set h \<subseteq> set evs
          \<and> (\<forall>a \<in> set h. \<forall>b \<in> set evs. isOverlapping a b uid \<longrightarrow> b \<in> set h)
          \<and> (\<forall>a \<in> set h. \<forall>b \<in> set h. (a, b) \<in> Rel\<^sup>*)"
  proof
    fix h assume h: "h \<in> set ?groups'"
    show "length h > 1 \<and> set h \<subseteq> set evs
          \<and> (\<forall>a \<in> set h. \<forall>b \<in> set evs. isOverlapping a b uid \<longrightarrow> b \<in> set h)
          \<and> (\<forall>a \<in> set h. \<forall>b \<in> set h. (a, b) \<in> Rel\<^sup>*)"
    proof (cases "h \<in> set groups")
      case True
      thus ?thesis using oldgroups by blast
    next
      case False
      hence hg: "h = g" "length g > 1" using h by (auto split: if_splits)
      show ?thesis unfolding hg(1) using hg(2) seed(1) closed conn by blast
    qed
  qed
  have c2: "\<forall>a \<in> set evs. eventId a \<in> p' \<longrightarrow> (\<forall>b \<in> set evs. isOverlapping a b uid \<longrightarrow> eventId b \<in> p')"
  proof (intro ballI impI)
    fix a b assume a: "a \<in> set evs" "eventId a \<in> p'" and b: "b \<in> set evs" "isOverlapping a b uid"
    have "eventId a \<in> p0 \<or> eventId a \<in> eventId ` set g" using a(2) seed(3) by blast
    thus "eventId b \<in> p'"
    proof
      assume "eventId a \<in> p0"
      hence "eventId b \<in> p0" using oldclosed a(1) b by blast
      thus ?thesis using seed(3) by blast
    next
      assume "eventId a \<in> eventId ` set g"
      then obtain a' where a': "a' \<in> set g" "eventId a = eventId a'" by blast
      have "a = a'" using same_id_same_event [OF D a(1) _ a'(2)] a'(1) seed(1) by blast
      hence "b \<in> set g" using closed a'(1) b by blast
      thus ?thesis using seed(3) by blast
    qed
  qed
  have oldcov: "\<forall>a \<in> set evs. eventId a \<in> p0 \<longrightarrow>
          (\<exists>h \<in> set groups. a \<in> set h) \<or> (\<forall>b \<in> set evs. isOverlapping a b uid \<longrightarrow> b = a)"
    using q unfolding Q_def by blast
  have c3: "\<forall>a \<in> set evs. eventId a \<in> p' \<longrightarrow>
          (\<exists>h \<in> set ?groups'. a \<in> set h) \<or> (\<forall>b \<in> set evs. isOverlapping a b uid \<longrightarrow> b = a)"
  proof (intro ballI impI)
    fix a assume a: "a \<in> set evs" "eventId a \<in> p'"
    have "eventId a \<in> p0 \<or> eventId a \<in> eventId ` set g" using a(2) seed(3) by blast
    thus "(\<exists>h \<in> set ?groups'. a \<in> set h) \<or> (\<forall>b \<in> set evs. isOverlapping a b uid \<longrightarrow> b = a)"
    proof
      assume "eventId a \<in> p0"
      hence "(\<exists>h \<in> set groups. a \<in> set h) \<or> (\<forall>b \<in> set evs. isOverlapping a b uid \<longrightarrow> b = a)"
        using oldcov a(1) by blast
      thus ?thesis by auto
    next
      assume "eventId a \<in> eventId ` set g"
      then obtain a' where a': "a' \<in> set g" "eventId a = eventId a'" by blast
      have "a = a'" using same_id_same_event [OF D a(1) _ a'(2)] a'(1) seed(1) by blast
      hence ag: "a \<in> set g" using a'(1) by simp
      show ?thesis
      proof (cases "length g > 1")
        case True
        thus ?thesis using ag by auto
      next
        case False
        have "g \<noteq> []" using seed(2) by auto
        hence "length g = 1" using False by (cases g) auto
        then obtain x where "g = [x]" by (cases g) auto
        hence "set g = {a}" using ag by simp
        hence "\<forall>b \<in> set evs. isOverlapping a b uid \<longrightarrow> b = a" using closed ag by blast
        thus ?thesis by blast
      qed
    qed
  qed
  have "insert (eventId e) p0 \<subseteq> p'" using seed(2,3) by blast
  thus ?thesis unfolding Q_def using c1 c2 c3 by blast
qed

lemma groupLoop_components:
  fixes evs :: "event list" and uid :: string
  defines "Rel \<equiv> {(a, b). a \<in> set evs \<and> b \<in> set evs \<and> isOverlapping a b uid}"
  defines "Q \<equiv> \<lambda>groups p.
      (\<forall>g \<in> set groups. length g > 1 \<and> set g \<subseteq> set evs
          \<and> (\<forall>a \<in> set g. \<forall>b \<in> set evs. isOverlapping a b uid \<longrightarrow> b \<in> set g)
          \<and> (\<forall>a \<in> set g. \<forall>b \<in> set g. (a, b) \<in> Rel\<^sup>*))
    \<and> (\<forall>a \<in> set evs. eventId a \<in> p \<longrightarrow> (\<forall>b \<in> set evs. isOverlapping a b uid \<longrightarrow> eventId b \<in> p))
    \<and> (\<forall>a \<in> set evs. eventId a \<in> p \<longrightarrow>
          (\<exists>g \<in> set groups. a \<in> set g) \<or> (\<forall>b \<in> set evs. isOverlapping a b uid \<longrightarrow> b = a))"
  assumes D: "distinct (map eventId evs)"
    and S: "\<forall>a \<in> set evs. \<forall>b \<in> set evs. isOverlapping a b uid \<longrightarrow> isOverlapping b a uid"
    and gl: "groupLoop evs uid todo groups p = Some groups'"
    and T: "set todo \<subseteq> set evs"
    and q: "Q groups p"
  shows "\<exists>p'. Q groups' p' \<and> p \<union> eventId ` set todo \<subseteq> p'"
  using gl T q
proof (induction todo arbitrary: groups p)
  case Nil
  have "groups' = groups" using Nil.prems(1) by simp
  hence "Q groups' p \<and> p \<union> eventId ` set [] \<subseteq> p" using Nil.prems(3) by simp
  thus ?case by (rule exI)
next
  case (Cons e todo)
  have T': "set todo \<subseteq> set evs" and e: "e \<in> set evs" using Cons.prems(2) by simp_all
  show ?case
  proof (cases "eventId e \<in> p")
    case True
    hence "groupLoop evs uid todo groups p = Some groups'" using Cons.prems(1) by simp
    from Cons.IH [OF this T' Cons.prems(3)] obtain p' where
      p': "Q groups' p'" "p \<union> eventId ` set todo \<subseteq> p'" by (elim exE conjE)
    have "p \<union> eventId ` set (e # todo) \<subseteq> p'" using p'(2) True by auto
    hence "Q groups' p' \<and> p \<union> eventId ` set (e # todo) \<subseteq> p'" using p'(1) by simp
    thus ?thesis by (rule exI)
  next
    case False
    obtain g p1 where ex: "expandGroup evs uid [e] (insert (eventId e) p) = Some (g, p1)"
      using expandGroup_returns [of evs uid "[e]" "insert (eventId e) p"] by auto
    have gl': "groupLoop evs uid todo (if length g > 1 then groups @ [g] else groups) p1 = Some groups'"
      using Cons.prems(1) False ex by simp
    have qq: "Q groups p" by (rule Cons.prems(3))
    have st: "Q (if length g > 1 then groups @ [g] else groups) p1 \<and> insert (eventId e) p \<subseteq> p1"
      unfolding Q_def Rel_def
      by (rule group_step [OF D S qq [unfolded Q_def Rel_def] e False ex])
    have st1: "Q (if length g > 1 then groups @ [g] else groups) p1" using st by (rule conjunct1)
    have st2: "insert (eventId e) p \<subseteq> p1" using st by (rule conjunct2)
    from Cons.IH [OF gl' T' st1] obtain p' where
      p': "Q groups' p'" "p1 \<union> eventId ` set todo \<subseteq> p'" by (elim exE conjE)
    have "p \<union> eventId ` set (e # todo) \<subseteq> p'" using p'(2) st2 by auto
    hence "Q groups' p' \<and> p \<union> eventId ` set (e # todo) \<subseteq> p'" using p'(1) by simp
    thus ?thesis by (rule exI)
  qed
qed

lemma groupOverlappingEvents_components:
  assumes D: "distinct (map eventId evs)"
    and S: "\<forall>a \<in> set evs. \<forall>b \<in> set evs. isOverlapping a b uid \<longrightarrow> isOverlapping b a uid"
    and g: "groupOverlappingEvents evs uid = Some groups"
  shows "(\<forall>g \<in> set groups. length g > 1 \<and> set g \<subseteq> set evs
            \<and> (\<forall>a \<in> set g. \<forall>b \<in> set evs. isOverlapping a b uid \<longrightarrow> b \<in> set g)
            \<and> (\<forall>a \<in> set g. \<forall>b \<in> set g.
                  (a, b) \<in> {(a, b). a \<in> set evs \<and> b \<in> set evs \<and> isOverlapping a b uid}\<^sup>*))
       \<and> (\<forall>a \<in> set evs. \<forall>b \<in> set evs. \<forall>c \<in> set evs.
             a \<noteq> b \<and> isOverlapping a b uid \<and> isOverlapping b c uid \<longrightarrow>
               (\<exists>g \<in> set groups. a \<in> set g \<and> b \<in> set g \<and> c \<in> set g))"
proof -
  have gl: "groupLoop evs uid evs [] {} = Some groups"
    using g by (simp add: groupOverlappingEvents_def)
  have T: "set evs \<subseteq> set evs" by simp
  have q0: "(\<forall>g \<in> set ([]::event list list). length g > 1 \<and> set g \<subseteq> set evs
          \<and> (\<forall>a \<in> set g. \<forall>b \<in> set evs. isOverlapping a b uid \<longrightarrow> b \<in> set g)
          \<and> (\<forall>a \<in> set g. \<forall>b \<in> set g.
                (a, b) \<in> {(a, b). a \<in> set evs \<and> b \<in> set evs \<and> isOverlapping a b uid}\<^sup>*))
    \<and> (\<forall>a \<in> set evs. eventId a \<in> ({}::string set) \<longrightarrow>
          (\<forall>b \<in> set evs. isOverlapping a b uid \<longrightarrow> eventId b \<in> ({}::string set)))
    \<and> (\<forall>a \<in> set evs. eventId a \<in> ({}::string set) \<longrightarrow>
          (\<exists>g \<in> set ([]::event list list). a \<in> set g) \<or> (\<forall>b \<in> set evs. isOverlapping a b uid \<longrightarrow> b = a))"
    by simp
  from groupLoop_components [OF D S gl T q0] obtain p' where
    grp: "\<forall>g \<in> set groups. length g > 1 \<and> set g \<subseteq> set evs
            \<and> (\<forall>a \<in> set g. \<forall>b \<in> set evs. isOverlapping a b uid \<longrightarrow> b \<in> set g)
            \<and> (\<forall>a \<in> set g. \<forall>b \<in> set g.
                  (a, b) \<in> {(a, b). a \<in> set evs \<and> b \<in> set evs \<and> isOverlapping a b uid}\<^sup>*)"
    and cov: "\<forall>a \<in> set evs. eventId a \<in> p' \<longrightarrow>
          (\<exists>g \<in> set groups. a \<in> set g) \<or> (\<forall>b \<in> set evs. isOverlapping a b uid \<longrightarrow> b = a)"
    and all: "{} \<union> eventId ` set evs \<subseteq> p'"
    by (elim exE conjE)
  have closed: "b \<in> set h" if "h \<in> set groups" "a \<in> set h" "b \<in> set evs" "isOverlapping a b uid" for h a b
    using grp that by blast
  have tri: "\<exists>g \<in> set groups. a \<in> set g \<and> b \<in> set g \<and> c \<in> set g"
    if a: "a \<in> set evs" and b: "b \<in> set evs" and c: "c \<in> set evs"
      and ab: "a \<noteq> b" "isOverlapping a b uid" and bc: "isOverlapping b c uid" for a b c
  proof -
    have "eventId a \<in> p'" using all a by blast
    hence "(\<exists>g \<in> set groups. a \<in> set g) \<or> (\<forall>b \<in> set evs. isOverlapping a b uid \<longrightarrow> b = a)"
      using cov a by blast
    moreover have "\<not> (\<forall>b \<in> set evs. isOverlapping a b uid \<longrightarrow> b = a)" using b ab by blast
    ultimately obtain h where h: "h \<in> set groups" "a \<in> set h" by blast
    have bh: "b \<in> set h" using closed [OF h b ab(2)] .
    have ch: "c \<in> set h" using closed [OF h(1) bh c bc] .
    show ?thesis using h bh ch by blast
  qed
  have "\<forall>a \<in> set evs. \<forall>b \<in> set evs. \<forall>c \<in> set evs.
             a \<noteq> b \<and> isOverlapping a b uid \<and> isOverlapping b c uid \<longrightarrow>
               (\<exists>g \<in> set groups. a \<in> set g \<and> b \<in> set g \<and> c \<in> set g)"
    using tri by blast
  thus ?thesis using grp by (intro conjI)
qed

section \<open>Where the code departs from the specification\<close>

text \<open>
  C1. The title check is not symmetric. Both \<open>1:1 Sync\<close> and \<open>1:1\<close>
  match the trigger of the first rule, and then only the second title is tested
  against the blocked patterns: with \<open>1:1\<close> second the pair is compatible, with
  \<open>1:1 Sync\<close> second it is not. \<open>isOverlapping\<close> calls the check in one
  direction only, so it inherits the asymmetry.
\<close>

theorem areTitlesCompatible_not_symmetric:
  "areTitlesCompatible ''1:1 Sync'' ''1:1'' \<and> \<not> areTitlesCompatible ''1:1'' ''1:1 Sync''
   \<and> isOverlapping syncMeeting catchUp ''u1'' \<and> \<not> isOverlapping catchUp syncMeeting ''u1''"
  by code_simp

text \<open>
  C2. \<open>planning\<close> may merge with \<open>syncMeeting\<close> and \<open>syncMeeting\<close> with
  \<open>catchUp\<close>, but with \<open>catchUp\<close> first in the list the grouper returns
  the group of the other two only; with \<open>catchUp\<close> last it returns all three.
  With the same two events, \<open>mergeAll\<close> finds nothing to merge when
  \<open>catchUp\<close> is stored first.
\<close>

theorem groupOverlappingEvents_misses_member:
  "isOverlapping planning syncMeeting ''u1'' \<and> isOverlapping syncMeeting catchUp ''u1''
   \<and> groupOverlappingEvents [catchUp, planning, syncMeeting] ''u1'' = Some [[planning, syncMeeting]]
   \<and> groupOverlappingEvents [planning, syncMeeting, catchUp] ''u1''
        = Some [[planning, syncMeeting, catchUp]]
   \<and> mergeAll quietEnv ''u1'' catchUpFirstStore
        = Some (Inl (BadRequestException ''No overlapping events found to merge''), catchUpFirstStore)"
  by code_simp

text \<open>
  C7. The three writes are not one unit. When \<open>remove\<close> is rejected, the merged
  event has been inserted and the source events are still there; when the insert of
  the audit row is rejected, the events have been replaced and no audit row exists.
  In both cases the error reaches the caller.
\<close>

theorem mergeAll_not_atomic:
  "mergeAll (quietEnv\<lparr>removeEventsFails := True\<rparr>) ''u1'' twoEventStore
     = Some (Inl QueryFailedError,
             twoEventStore\<lparr>eventTable := [planning, teamMeeting, planningTeamMerged]\<rparr>)
   \<and> mergeAll (quietEnv\<lparr>saveAuditFails := True\<rparr>) ''u1'' twoEventStore
     = Some (Inl QueryFailedError, twoEventStore\<lparr>eventTable := [planningTeamMerged]\<rparr>)"
  by code_simp

text \<open>
  C8. With a summarizer that works (the service's own mock summary) and a queue
  whose \<open>add\<close> rejects, \<open>mergeAll\<close> writes the fallback note and never
  calls the summarizer; with the same summarizer and no queue it calls it and
  writes its summary.
\<close>

theorem mergeAll_rejected_enqueue_skips_summarizer:
  "mergeAll rejectingQueueEnv ''u1'' twoEventStore
     = Some (Inr (planningTeamMerged, fallbackAudit), fallbackStore)
   \<and> auditNotes fallbackAudit = Some ''Merged 2 overlapping events''
   \<and> mergeAll summarizerOnlyEnv ''u1'' twoEventStore
     = Some (Inr (planningTeamMerged, summaryAudit), summaryStore)
   \<and> auditNotes summaryAudit = Some ''Merged 2 overlapping events: Planning + Team Meeting.''"
  by code_simp

end
